theory Spec2Isabelle
  imports Main "HOL-Library.Sublist"
begin

section \<open>Peer-to-peer chat over TCP: the two peers\<close>

text \<open>
  The repository holds two programs, \<^verbatim>\<open>peerA/main.go\<close> and \<^verbatim>\<open>peerB/main.go\<close>, that differ
  only in their configuration constants and in the tag that \<^verbatim>\<open>stdinReader\<close> puts in front
  of every line. Go strings are byte sequences and are modelled as \<^typ>\<open>string\<close>;
  \<^verbatim>\<open>time.Duration\<close> counts nanoseconds.
\<close>

record peer =
  localListenAddr :: string
  remoteDialAddr :: string
  peerTag :: string

definition peerA :: peer where
  "peerA = \<lparr>localListenAddr = ''0.0.0.0:8080'', remoteDialAddr = ''127.0.0.1:8081'',
     peerTag = ''A: ''\<rparr>"

definition peerB :: peer where
  "peerB = \<lparr>localListenAddr = ''0.0.0.0:8081'', remoteDialAddr = ''127.0.0.1:8080'',
     peerTag = ''B: ''\<rparr>"

definition Millisecond :: int where
  "Millisecond = 1000000"

definition Second :: int where
  "Second = 1000 * Millisecond"

definition dialRetryEvery :: int where
  "dialRetryEvery = 700 * Millisecond"

definition connWriteTimeout :: int where
  "connWriteTimeout = 5 * Second"

section \<open>Connection establishment\<close>

text \<open>
  A \<^verbatim>\<open>net.Conn\<close> is an interface value and may be \<^verbatim>\<open>nil\<close>. The library calls
  \<^verbatim>\<open>ln.Accept()\<close> and \<^verbatim>\<open>net.Dial\<close> return a pair of a connection and an error, the error
  being \<^verbatim>\<open>nil\<close> (here \<open>None\<close>) on success.
\<close>

datatype conn = NilConn | Conn nat

datatype error = Error string

text \<open>What the resolver does besides returning: dial attempts and sleeps, in order.\<close>

datatype event = Dial string | Sleep int

text \<open>
  \<^verbatim>\<open>acceptOnce\<close>: the result of the single \<^verbatim>\<open>ln.Accept()\<close> is sent into \<^verbatim>\<open>acceptCh\<close> unless
  it is an error. The channel has capacity 1 and no other sender, so the send never blocks.
\<close>

definition acceptOnce :: "conn \<times> error option \<Rightarrow> conn list \<Rightarrow> conn list" where
  "acceptOnce r acceptCh = (case r of (conn, Some err) \<Rightarrow> acceptCh | (conn, None) \<Rightarrow> acceptCh @ [conn])"

text \<open>
  \<^verbatim>\<open>establishConn\<close>: the loop may run forever, so it is a partial function and \<open>None\<close>
  stands for not returning. The surroundings are given per iteration \<open>i\<close> of the loop:
  \<open>acceptCh i\<close> is the content of the channel when the \<^verbatim>\<open>select\<close> of that iteration looks at it
  (the receive succeeds iff it is not empty, otherwise the \<^verbatim>\<open>default\<close> branch runs), and
  \<open>net_Dial i\<close> is what \<^verbatim>\<open>net.Dial("tcp", remote)\<close> returns if it is called in that iteration.
\<close>

partial_function (option) establishConn ::
  "(nat \<Rightarrow> conn list) \<Rightarrow> (nat \<Rightarrow> conn \<times> error option) \<Rightarrow> string \<Rightarrow> nat \<Rightarrow> event list
     \<Rightarrow> (conn \<times> event list) option" where
  "establishConn acceptCh net_Dial remote i log =
     (case acceptCh i of
        c # _ \<Rightarrow> Some (c, log)
      | [] \<Rightarrow>
          (case net_Dial i of
             (c, None) \<Rightarrow> Some (c, log @ [Dial remote])
           | (c, Some err) \<Rightarrow>
               establishConn acceptCh net_Dial remote (Suc i)
                 (log @ [Dial remote, Sleep dialRetryEvery])))"

text \<open>Iteration \<open>j\<close> ends the loop: the slot is filled, or the dial of that iteration succeeds.\<close>

definition ready :: "(nat \<Rightarrow> conn list) \<Rightarrow> (nat \<Rightarrow> conn \<times> error option) \<Rightarrow> nat \<Rightarrow> bool" where
  "ready acceptCh net_Dial j \<longleftrightarrow> acceptCh j \<noteq> [] \<or> snd (net_Dial j) = None"

definition first_ready ::
  "(nat \<Rightarrow> conn list) \<Rightarrow> (nat \<Rightarrow> conn \<times> error option) \<Rightarrow> nat \<Rightarrow> nat \<Rightarrow> bool" where
  "first_ready acceptCh net_Dial i k \<longleftrightarrow>
     i \<le> k \<and> ready acceptCh net_Dial k \<and> (\<forall>j. i \<le> j \<and> j < k \<longrightarrow> \<not> ready acceptCh net_Dial j)"

text \<open>The events of \<open>n\<close> failed iterations: one dial and one sleep each.\<close>

definition retries :: "string \<Rightarrow> nat \<Rightarrow> event list" where
  "retries remote n = concat (replicate n [Dial remote, Sleep dialRetryEvery])"

text \<open>
  The part of \<^verbatim>\<open>main\<close> up to the check of the connection. \<open>accept_after\<close> is the number of
  polling iterations of the resolver that pass before \<^verbatim>\<open>ln.Accept()\<close> returns in the
  \<^verbatim>\<open>acceptOnce\<close> goroutine (\<open>None\<close>: it never returns).
\<close>

record net_env =
  listen_result :: "error option"
  accept_after :: "nat option"
  accept_result :: "conn \<times> error option"
  dial_result :: "nat \<Rightarrow> conn \<times> error option"

definition acceptCh_at :: "net_env \<Rightarrow> nat \<Rightarrow> conn list" where
  "acceptCh_at env i =
     (case accept_after env of
        None \<Rightarrow> []
      | Some k \<Rightarrow> if k \<le> i then acceptOnce (accept_result env) [] else [])"

datatype startup = ListenError error | FailedToEstablish | Connected conn

definition main_connect :: "peer \<Rightarrow> net_env \<Rightarrow> startup option" where
  "main_connect p env =
     (case listen_result env of
        Some err \<Rightarrow> Some (ListenError err)
      | None \<Rightarrow>
          (case establishConn (acceptCh_at env) (dial_result env) (remoteDialAddr p) 0 [] of
             None \<Rightarrow> None
           | Some (conn, log) \<Rightarrow>
               Some (if conn = NilConn then FailedToEstablish else Connected conn)))"

text \<open>
  The contract of \<^verbatim>\<open>Accept\<close> and \<^verbatim>\<open>Dial\<close> in package \<^verbatim>\<open>net\<close>: a \<^verbatim>\<open>nil\<close> error comes with a
  connection that is not \<^verbatim>\<open>nil\<close>.
\<close>

definition net_ok :: "conn \<times> error option \<Rightarrow> bool" where
  "net_ok r \<longleftrightarrow> (snd r = None \<longrightarrow> fst r \<noteq> NilConn)"

text \<open>Concrete surroundings used to run the resolver.\<close>

definition never_accepted :: "nat \<Rightarrow> conn list" where
  "never_accepted i = []"

definition always_refused :: "nat \<Rightarrow> conn \<times> error option" where
  "always_refused i = (NilConn, Some (Error ''connection refused''))"

definition accepted_from_2 :: "nat \<Rightarrow> conn list" where
  "accepted_from_2 i = (if 2 \<le> i then [Conn 1] else [])"

definition dialled_from_2 :: "nat \<Rightarrow> conn \<times> error option" where
  "dialled_from_2 i =
     (if 2 \<le> i then (Conn 2, None) else (NilConn, Some (Error ''connection refused'')))"

definition env_accept_2 :: net_env where
  "env_accept_2 = \<lparr>listen_result = None, accept_after = Some 2,
     accept_result = (Conn 1, None), dial_result = always_refused\<rparr>"

section \<open>The shutdown signal\<close>

text \<open>
  The channel \<^verbatim>\<open>done\<close> carries no values; all that matters is whether it has been closed.
  Closing a channel that is already closed panics.
\<close>

definition close_chan :: "bool \<Rightarrow> bool option" where
  "close_chan closed = (if closed then None else Some True)"

text \<open>
  \<^verbatim>\<open>closeDone\<close>, run without interference: the \<^verbatim>\<open>select\<close> takes the receive when the channel
  is closed, and the \<^verbatim>\<open>default\<close> branch closes it otherwise. \<open>None\<close> is a panic.
\<close>

definition closeDone :: "bool \<Rightarrow> bool option" where
  "closeDone doneCh = (if doneCh then Some doneCh else close_chan doneCh)"

text \<open>
  Two goroutines in \<^verbatim>\<open>closeDone\<close> at the same time. The \<^verbatim>\<open>select\<close> and the \<^verbatim>\<open>close\<close> are each
  atomic on the channel, but nothing joins them: another goroutine may run in between. A
  schedule names the goroutine that takes the next step.
\<close>

datatype raiser = AtSelect | AtClose | Finished | Panicked

fun closeDone_step :: "bool \<Rightarrow> raiser \<Rightarrow> bool \<times> raiser" where
  "closeDone_step doneCh AtSelect = (doneCh, if doneCh then Finished else AtClose)"
| "closeDone_step doneCh AtClose =
     (case close_chan doneCh of None \<Rightarrow> (doneCh, Panicked) | Some d \<Rightarrow> (d, Finished))"
| "closeDone_step doneCh Finished = (doneCh, Finished)"
| "closeDone_step doneCh Panicked = (doneCh, Panicked)"

datatype goroutine = Writer | Reader

fun closeDone_race :: "goroutine list \<Rightarrow> bool \<times> raiser \<times> raiser \<Rightarrow> bool \<times> raiser \<times> raiser" where
  "closeDone_race [] st = st"
| "closeDone_race (Writer # sched) (doneCh, w, r) =
     (case closeDone_step doneCh w of (d, w') \<Rightarrow> closeDone_race sched (d, w', r))"
| "closeDone_race (Reader # sched) (doneCh, w, r) =
     (case closeDone_step doneCh r of (d, r') \<Rightarrow> closeDone_race sched (d, w, r'))"

section \<open>Lines: scanning and trimming\<close>

definition LF :: char where
  "LF = CHR 0x0A"

definition CR :: char where
  "CR = CHR 0x0D"

text \<open>\<^verbatim>\<open>bufio.MaxScanTokenSize\<close>, the size a scanner's buffer grows to at most.\<close>

definition MaxScanTokenSize :: nat where
  "MaxScanTokenSize = 64 * 1024"

definition dropCR :: "string \<Rightarrow> string" where
  "dropCR line = (if line \<noteq> [] \<and> last line = CR then butlast line else line)"

text \<open>
  A \<^verbatim>\<open>bufio.Scanner\<close> with the default split function \<^verbatim>\<open>ScanLines\<close>, over the bytes that
  its source delivers until it ends (end of file or a read error). \<open>Scan src\<close> is one call
  of \<^verbatim>\<open>sc.Scan()\<close>: \<open>None\<close> when it returns false, otherwise the token that \<^verbatim>\<open>sc.Text()\<close>
  gives and the bytes left. A line and its newline must fit into the buffer together;
  when the buffer is full and holds no newline the scanner stops with \<^verbatim>\<open>ErrTooLong\<close>. The
  last line needs no newline.
\<close>

definition Scan :: "string \<Rightarrow> (string \<times> string) option" where
  "Scan src =
     (let line = takeWhile (\<lambda>c. c \<noteq> LF) src; rest = dropWhile (\<lambda>c. c \<noteq> LF) src
      in if src = [] then None
         else if MaxScanTokenSize \<le> length line then None
         else Some (dropCR line, drop 1 rest))"

text \<open>All the tokens that repeated calls of \<^verbatim>\<open>sc.Scan()\<close> yield.\<close>

function scanAll :: "string \<Rightarrow> string list" where
  "scanAll src = (case Scan src of None \<Rightarrow> [] | Some (text, rest) \<Rightarrow> text # scanAll rest)"
  by pat_completeness auto
termination
  apply (relation "measure length")
   apply (auto simp: Scan_def Let_def split: if_splits)
  subgoal for src
    using length_dropWhile_le [of "\<lambda>c. c \<noteq> LF" src] by (cases src) auto
  done

text \<open>
  The lines of an input as they were typed: the bytes between the newlines, whatever their
  length; the last line needs no newline. The scanner accepts them up to the first one that
  does not fit its buffer.
\<close>

function raw_lines :: "string \<Rightarrow> string list" where
  "raw_lines src =
     (if src = [] then []
      else takeWhile (\<lambda>c. c \<noteq> LF) src # raw_lines (drop 1 (dropWhile (\<lambda>c. c \<noteq> LF) src)))"
  by pat_completeness auto
termination
  apply (relation "measure length")
   apply auto
  subgoal for src
    using length_dropWhile_le [of "\<lambda>c. c \<noteq> LF" src] by (cases src) auto
  done

definition accepted_lines :: "string \<Rightarrow> string list" where
  "accepted_lines src = takeWhile (\<lambda>r. length r < MaxScanTokenSize) (raw_lines src)"

text \<open>
  \<^verbatim>\<open>strings.TrimSpace\<close> removes the white space of \<^verbatim>\<open>unicode.IsSpace\<close> from both ends of a
  string: the six ASCII characters and, in their UTF-8 encoding, U+0085, U+00A0, U+1680,
  U+2000 to U+200A, U+2028, U+2029, U+202F, U+205F and U+3000. A byte that does not
  start a valid encoding decodes to \<^verbatim>\<open>utf8.RuneError\<close>, which is no white space.
\<close>

definition whiteSpace :: "string list" where
  "whiteSpace =
     [[CHR 0x09], [CHR 0x0A], [CHR 0x0B], [CHR 0x0C], [CHR 0x0D], [CHR 0x20],
      [CHR 0xC2, CHR 0x85], [CHR 0xC2, CHR 0xA0], [CHR 0xE1, CHR 0x9A, CHR 0x80],
      [CHR 0xE2, CHR 0x80, CHR 0x80], [CHR 0xE2, CHR 0x80, CHR 0x81],
      [CHR 0xE2, CHR 0x80, CHR 0x82], [CHR 0xE2, CHR 0x80, CHR 0x83],
      [CHR 0xE2, CHR 0x80, CHR 0x84], [CHR 0xE2, CHR 0x80, CHR 0x85],
      [CHR 0xE2, CHR 0x80, CHR 0x86], [CHR 0xE2, CHR 0x80, CHR 0x87],
      [CHR 0xE2, CHR 0x80, CHR 0x88], [CHR 0xE2, CHR 0x80, CHR 0x89],
      [CHR 0xE2, CHR 0x80, CHR 0x8A], [CHR 0xE2, CHR 0x80, CHR 0xA8],
      [CHR 0xE2, CHR 0x80, CHR 0xA9], [CHR 0xE2, CHR 0x80, CHR 0xAF],
      [CHR 0xE2, CHR 0x81, CHR 0x9F], [CHR 0xE3, CHR 0x80, CHR 0x80]]"

definition leadingSpace :: "string \<Rightarrow> nat" where
  "leadingSpace s = (case find (\<lambda>w. prefix w s) whiteSpace of None \<Rightarrow> 0 | Some w \<Rightarrow> length w)"

definition trailingSpace :: "string \<Rightarrow> nat" where
  "trailingSpace s = (case find (\<lambda>w. suffix w s) whiteSpace of None \<Rightarrow> 0 | Some w \<Rightarrow> length w)"

function TrimLeft :: "string \<Rightarrow> string" where
  "TrimLeft s =
     (if leadingSpace s = 0 \<or> s = [] then s else TrimLeft (drop (leadingSpace s) s))"
  by pat_completeness auto
termination
  by (relation "measure length") auto

function TrimRight :: "string \<Rightarrow> string" where
  "TrimRight s =
     (if trailingSpace s = 0 \<or> s = [] then s
      else TrimRight (take (length s - trailingSpace s) s))"
  by pat_completeness auto
termination
  by (relation "measure length") auto

definition TrimSpace :: "string \<Rightarrow> string" where
  "TrimSpace s = TrimRight (TrimLeft s)"

section \<open>The goroutines of a session\<close>

text \<open>
  What the goroutines share: the shutdown signal, the two queues, the calls made on the
  connection and the lines printed. A queue is the list of the values sent and not yet
  received. Each loop is modelled running on its own, the other goroutines standing still;
  its result says whether it returned, panicked, or waits at a \<^verbatim>\<open>select\<close> with no case ready.
\<close>

datatype conn_event =
  SetWriteDeadline int | WriteString string "error option" | Flush "error option"

record session =
  doneCh :: bool
  outgoing :: "string list"
  incoming :: "string list"
  connLog :: "conn_event list"
  console :: "string list"

datatype 'a outcome = Returned 'a | Waiting 'a | Panic 'a

text \<open>
  \<^verbatim>\<open>stdinReader\<close>, with the bytes that standard input delivers until it ends. The tag is
  \<^verbatim>\<open>"A: "\<close> in peer A and \<^verbatim>\<open>"B: "\<close> in peer B.
\<close>

function stdinReader :: "string \<Rightarrow> string \<Rightarrow> session \<Rightarrow> session" where
  "stdinReader tag sc s =
     (if doneCh s then s
      else case Scan sc of
        None \<Rightarrow> s
      | Some (text, sc') \<Rightarrow>
          (let line = TrimSpace text
           in if line = [] then stdinReader tag sc' s
              else stdinReader tag sc' (s\<lparr>outgoing := outgoing s @ [tag @ line]\<rparr>)))"
  by pat_completeness auto
termination
  apply (relation "measure (\<lambda>(tag, sc, s). length sc)")
    apply (auto simp: Scan_def Let_def split: if_splits)
  subgoal for sc
    using length_dropWhile_le [of "\<lambda>c. c \<noteq> LF" sc] by (cases sc) auto
  subgoal for sc
    using length_dropWhile_le [of "\<lambda>c. c \<noteq> LF" sc] by (cases sc) auto
  done

text \<open>
  What \<^verbatim>\<open>connWriter\<close> meets in iteration \<open>i\<close> of its loop: the time, the results of
  \<^verbatim>\<open>w.WriteString\<close> and \<^verbatim>\<open>w.Flush\<close>, and the case that \<^verbatim>\<open>select\<close> takes when both the signal
  and a message are ready (Go chooses among the ready cases at random).
\<close>

record writer_env =
  now :: "nat \<Rightarrow> int"
  writeString :: "nat \<Rightarrow> error option"
  flush :: "nat \<Rightarrow> error option"
  pickDone :: "nat \<Rightarrow> bool"

definition raise_done :: "session \<Rightarrow> session outcome" where
  "raise_done s =
     (case closeDone (doneCh s) of None \<Rightarrow> Panic s | Some d \<Rightarrow> Returned (s\<lparr>doneCh := d\<rparr>))"

function connWriter :: "writer_env \<Rightarrow> nat \<Rightarrow> session \<Rightarrow> session outcome" where
  "connWriter env i s =
     (if doneCh s \<and> (outgoing s = [] \<or> pickDone env i) then Returned s
      else case outgoing s of
        [] \<Rightarrow> Waiting s
      | msg # queued \<Rightarrow>
          (let s1 = s\<lparr>outgoing := queued,
                 connLog := connLog s @ [SetWriteDeadline (now env i + connWriteTimeout),
                   WriteString (msg @ [LF]) (writeString env i)]\<rparr>
           in case writeString env i of
                Some err \<Rightarrow> raise_done s1
              | None \<Rightarrow>
                  (let s2 = s1\<lparr>connLog := connLog s1 @ [Flush (flush env i)]\<rparr>
                   in case flush env i of
                        Some err \<Rightarrow> raise_done s2
                      | None \<Rightarrow> connWriter env (Suc i) s2)))"
  by pat_completeness auto
termination
  by (relation "measure (\<lambda>(env, i, s). length (outgoing s))") auto

text \<open>
  The bytes of the messages that were written and flushed without error, in order. When no
  write fails these are all the bytes that reach the connection. Of a message whose write
  or flush fails a part may have reached it as well (\<^verbatim>\<open>bufio.Writer\<close> hands a message longer
  than its buffer of 4096 bytes on in pieces); that part is not recorded.
\<close>

fun wire :: "conn_event list \<Rightarrow> string" where
  "wire (WriteString bytes None # Flush None # es) = bytes @ wire es"
| "wire (e # es) = wire es"
| "wire [] = []"

text \<open>\<^verbatim>\<open>connReader\<close>, with the bytes that the connection delivers until it ends.\<close>

function connReader :: "string \<Rightarrow> session \<Rightarrow> session outcome" where
  "connReader sc s =
     (case Scan sc of
        Some (text, sc') \<Rightarrow> connReader sc' (s\<lparr>incoming := incoming s @ [''RECV -> '' @ text]\<rparr>)
      | None \<Rightarrow> raise_done s)"
  by pat_completeness auto
termination
  apply (relation "measure (\<lambda>(sc, s). length sc)")
   apply (auto simp: Scan_def Let_def split: if_splits)
  subgoal for sc
    using length_dropWhile_le [of "\<lambda>c. c \<noteq> LF" sc] by (cases sc) auto
  done

text \<open>
  The loop at the end of \<^verbatim>\<open>main\<close>; \<open>pick i\<close> is the case that \<^verbatim>\<open>select\<close> takes in iteration
  \<open>i\<close> when both a message and the signal are ready.
\<close>

function main_loop :: "(nat \<Rightarrow> bool) \<Rightarrow> nat \<Rightarrow> session \<Rightarrow> session outcome" where
  "main_loop pick i s =
     (if doneCh s \<and> (incoming s = [] \<or> pick i)
      then Returned (s\<lparr>console := console s @ [''Connection closed. Bye.'']\<rparr>)
      else case incoming s of
        [] \<Rightarrow> Waiting s
      | msg # queued \<Rightarrow>
          main_loop pick (Suc i) (s\<lparr>incoming := queued, console := console s @ [msg]\<rparr>))"
  by pat_completeness auto
termination
  by (relation "measure (\<lambda>(pick, i, s). length (incoming s))") auto

section \<open>The line producer step by step\<close>

text \<open>
  \<^verbatim>\<open>stdinReader\<close> once more, as single steps, to see where it blocks: in \<^verbatim>\<open>sc.Scan()\<close> as long
  as standard input, still open, holds no complete line, and in the send as long as the
  outgoing queue is full. Standard input is the bytes typed and not yet consumed, and
  whether it has been closed. A step that is \<open>None\<close> cannot be taken: the goroutine has
  returned (\<open>Exited\<close>) or is blocked.
\<close>

text \<open>The capacity of \<^verbatim>\<open>outgoing\<close> and \<^verbatim>\<open>incoming\<close>: \<^verbatim>\<open>make(chan string, 32)\<close>.\<close>

definition queueCap :: nat where
  "queueCap = 32"

definition Scan_blocking :: "string \<Rightarrow> bool \<Rightarrow> (string \<times> string) option option" where
  "Scan_blocking avail eof =
     (if LF \<in> set avail \<or> eof \<or> MaxScanTokenSize \<le> length avail then Some (Scan avail)
      else None)"

datatype producer = Polling | Scanning | Sending string | Exited

fun stdinReader_step ::
  "string \<Rightarrow> producer \<times> (string \<times> bool) \<times> session
     \<Rightarrow> (producer \<times> (string \<times> bool) \<times> session) option" where
  "stdinReader_step tag (Polling, inp, s) = Some (if doneCh s then Exited else Scanning, inp, s)"
| "stdinReader_step tag (Scanning, (avail, eof), s) =
     (case Scan_blocking avail eof of
        None \<Rightarrow> None
      | Some None \<Rightarrow> Some (Exited, (avail, eof), s)
      | Some (Some (tok, rest)) \<Rightarrow>
          (let line = TrimSpace tok
           in Some (if line = [] then Polling else Sending (tag @ line), (rest, eof), s)))"
| "stdinReader_step tag (Sending m, inp, s) =
     (if length (outgoing s) < queueCap
      then Some (Polling, inp, s\<lparr>outgoing := outgoing s @ [m]\<rparr>) else None)"
| "stdinReader_step tag (Exited, inp, s) = None"

text \<open>At most \<open>n\<close> steps, stopping where no step can be taken.\<close>

fun stdinReader_run ::
  "nat \<Rightarrow> string \<Rightarrow> producer \<times> (string \<times> bool) \<times> session
     \<Rightarrow> producer \<times> (string \<times> bool) \<times> session" where
  "stdinReader_run 0 tag st = st"
| "stdinReader_run (Suc n) tag st =
     (case stdinReader_step tag st of None \<Rightarrow> st | Some st' \<Rightarrow> stdinReader_run n tag st')"

section \<open>Sending and receiving\<close>

text \<open>The calls on the connection for one message that is written and flushed without error.\<close>

definition sent_block :: "int \<Rightarrow> string \<Rightarrow> conn_event list" where
  "sent_block t m = [SetWriteDeadline t, WriteString (m @ [LF]) None, Flush None]"

fun sent_log :: "writer_env \<Rightarrow> nat \<Rightarrow> string list \<Rightarrow> conn_event list" where
  "sent_log env i [] = []"
| "sent_log env i (m # ms) = sent_block (now env i + connWriteTimeout) m @ sent_log env (Suc i) ms"

definition write_fails :: "writer_env \<Rightarrow> nat \<Rightarrow> bool" where
  "write_fails env j \<longleftrightarrow> writeString env j \<noteq> None \<or> flush env j \<noteq> None"

text \<open>The lines that reach \<^verbatim>\<open>outgoing\<close>: the tokens of the scanner, trimmed, without the empty ones.\<close>

definition typed_lines :: "string \<Rightarrow> string list" where
  "typed_lines stdin = filter (\<lambda>l. l \<noteq> []) (map TrimSpace (scanAll stdin))"

text \<open>
  One direction of a session over a transport that loses and reorders nothing: the bytes
  that a peer puts on the connection when its user types \<open>stdin\<close>, and what the other peer
  makes of the bytes it receives. A queue hands its values on in the order of the sends, so
  the producer is run first and the writer after it.
\<close>

definition session0 :: session where
  "session0 = \<lparr>doneCh = False, outgoing = [], incoming = [], connLog = [], console = []\<rparr>"




text \<open>Concrete surroundings and inputs used to run the pumps.\<close>

definition all_ok :: writer_env where
  "all_ok = \<lparr>now = (\<lambda>i. 0), writeString = (\<lambda>i. None), flush = (\<lambda>i. None),
     pickDone = (\<lambda>i. True)\<rparr>"

definition flush_fails :: writer_env where
  "flush_fails = \<lparr>now = (\<lambda>i. 0), writeString = (\<lambda>i. None),
     flush = (\<lambda>i. Some (Error ''i/o timeout'')), pickDone = (\<lambda>i. True)\<rparr>"

definition picks_message :: writer_env where
  "picks_message = \<lparr>now = (\<lambda>i. 0), writeString = (\<lambda>i. None), flush = (\<lambda>i. None),
     pickDone = (\<lambda>i. False)\<rparr>"


definition blank_line :: string where
  "blank_line = replicate 65536 (CHR '' '')"

declare scanAll.simps [simp del]
declare raw_lines.simps [simp del]
declare TrimLeft.simps [simp del]
declare TrimRight.simps [simp del]
declare stdinReader.simps [simp del]
declare connWriter.simps [simp del]
declare connReader.simps [simp del]
declare main_loop.simps [simp del]

section \<open>Properties of the resolver\<close>

lemma establishConn_accept:
  "a i = c # cs \<Longrightarrow> establishConn a d r i log = Some (c, log)"
  by (subst establishConn.simps) simp

lemma establishConn_dial:
  "a i = [] \<Longrightarrow> d i = (c, None) \<Longrightarrow> establishConn a d r i log = Some (c, log @ [Dial r])"
  by (subst establishConn.simps) simp

lemma establishConn_fail:
  "a i = [] \<Longrightarrow> d i = (c, Some e) \<Longrightarrow>
   establishConn a d r i log = establishConn a d r (Suc i) (log @ [Dial r, Sleep dialRetryEvery])"
  by (subst establishConn.simps) simp

lemma not_ready_iff: "\<not> ready a d i \<longleftrightarrow> a i = [] \<and> (\<exists>c e. d i = (c, Some e))"
  by (cases "d i") (auto simp: ready_def)

lemma establishConn_retry:
  assumes "\<not> ready a d i"
  shows "establishConn a d r i log =
    establishConn a d r (Suc i) (log @ [Dial r, Sleep dialRetryEvery])"
proof -
  from assms obtain c e where "a i = []" "d i = (c, Some e)"
    unfolding not_ready_iff by blast
  then show ?thesis by (rule establishConn_fail)
qed

lemma establishConn_ready:
  assumes "ready a d i"
  shows "establishConn a d r i log =
    Some (case a i of c # _ \<Rightarrow> (c, log) | [] \<Rightarrow> (fst (d i), log @ [Dial r]))"
proof (cases "a i")
  case Nil
  with assms obtain c where di: "d i = (c, None)"
    by (cases "d i") (auto simp: ready_def)
  from Nil di show ?thesis by (simp add: establishConn_dial)
next
  case (Cons c cs)
  then show ?thesis by (simp add: establishConn_accept)
qed

lemma retries_Suc: "retries r (Suc n) = [Dial r, Sleep dialRetryEvery] @ retries r n"
  by (simp add: retries_def)

lemma establishConn_skip:
  "(\<forall>j<n. \<not> ready a d (i + j)) \<Longrightarrow>
   establishConn a d r i log = establishConn a d r (i + n) (log @ retries r n)"
proof (induction n arbitrary: i log)
  case 0
  then show ?case by (simp add: retries_def)
next
  case (Suc n)
  from Suc.prems have here: "\<not> ready a d i"
    by (metis add.right_neutral zero_less_Suc)
  have "\<forall>j<n. \<not> ready a d (Suc i + j)"
  proof (intro allI impI)
    fix j assume "j < n"
    then have "Suc j < Suc n" by simp
    with Suc.prems have "\<not> ready a d (i + Suc j)" by blast
    then show "\<not> ready a d (Suc i + j)" by simp
  qed
  from Suc.IH [OF this, of "log @ [Dial r, Sleep dialRetryEvery]"]
  show ?case by (simp add: establishConn_retry [OF here] retries_Suc)
qed

lemma establishConn_first_ready:
  assumes "first_ready a d i k"
  shows "establishConn a d r i log =
    Some (case a k of c # _ \<Rightarrow> (c, log @ retries r (k - i))
          | [] \<Rightarrow> (fst (d k), log @ retries r (k - i) @ [Dial r]))"
proof -
  from assms have ik: "i \<le> k" and rk: "ready a d k"
    and before: "\<forall>j. i \<le> j \<and> j < k \<longrightarrow> \<not> ready a d j"
    by (simp_all add: first_ready_def)
  from before have "\<forall>j<k - i. \<not> ready a d (i + j)" by simp
  from establishConn_skip [OF this] ik
  have "establishConn a d r i log = establishConn a d r k (log @ retries r (k - i))"
    by simp
  also have "\<dots> = Some (case a k of c # _ \<Rightarrow> (c, log @ retries r (k - i))
          | [] \<Rightarrow> (fst (d k), (log @ retries r (k - i)) @ [Dial r]))"
    by (rule establishConn_ready [OF rk])
  finally show ?thesis by (simp split: list.split)
qed

lemma ex_first_ready:
  assumes "i \<le> j" and "ready a d j"
  shows "\<exists>k. first_ready a d i k"
proof -
  define k where "k = (LEAST k. i \<le> k \<and> ready a d k)"
  from assms have "i \<le> j \<and> ready a d j" by simp
  then have "i \<le> k \<and> ready a d k"
    unfolding k_def by (rule LeastI)
  moreover have "\<not> ready a d m" if "i \<le> m" "m < k" for m
  proof
    assume "ready a d m"
    with that have "i \<le> m \<and> ready a d m" by simp
    then have "k \<le> m" unfolding k_def by (rule Least_le)
    with that show False by simp
  qed
  ultimately show ?thesis by (auto simp: first_ready_def)
qed

lemma establishConn_returns:
  assumes "i \<le> j" and "ready a d j"
  shows "\<exists>res. establishConn a d r i log = Some res"
proof -
  from ex_first_ready [OF assms] obtain k where "first_ready a d i k" ..
  then show ?thesis by (simp add: establishConn_first_ready)
qed

lemma establishConn_needs_ready:
  assumes ret: "establishConn a d r i log = Some res"
  shows "\<exists>j\<ge>i. ready a d j"
proof -
  have "establishConn a d r i log = Some res \<longrightarrow> (\<exists>j\<ge>i. ready a d j)"
  proof (rule establishConn.raw_induct
      [where P = "\<lambda>a d r i log res. establishConn a d r i log = Some res \<longrightarrow> (\<exists>j\<ge>i. ready a d j)"],
      goal_cases)
    case (1 rec a d r i log res)
    show ?case
    proof
      assume here: "establishConn a d r i log = Some res"
      show "\<exists>j\<ge>i. ready a d j"
      proof (cases "ready a d i")
        case True
        then have "i \<le> i \<and> ready a d i" by simp
        then show ?thesis by (rule exI)
      next
        case False
        then obtain c e where ai: "a i = []" and di: "d i = (c, Some e)"
          unfolding not_ready_iff by blast
        from 1(2) have "rec a d r (Suc i) (log @ [Dial r, Sleep dialRetryEvery]) = Some res"
          unfolding ai di by simp
        moreover from here
        have later: "establishConn a d r (Suc i) (log @ [Dial r, Sleep dialRetryEvery]) = Some res"
          by (simp add: establishConn_retry [OF False])
        ultimately have "establishConn a d r (Suc i) (log @ [Dial r, Sleep dialRetryEvery]) = Some res
            \<longrightarrow> (\<exists>j\<ge>Suc i. ready a d j)"
          using 1(1) [of a d r "Suc i" "log @ [Dial r, Sleep dialRetryEvery]" res] by simp
        with later obtain j where "Suc i \<le> j" "ready a d j" by auto
        then have "i \<le> j \<and> ready a d j" by simp
        then show ?thesis by (rule exI)
      qed
    qed
  next
    case 2
    show ?case by (rule ret)
  qed
  with ret show ?thesis by simp
qed

lemma establishConn_forever:
  assumes "\<forall>j\<ge>i. \<not> ready a d j"
  shows "establishConn a d r i log = None"
proof (cases "establishConn a d r i log")
  case None
  then show ?thesis .
next
  case (Some res)
  from establishConn_needs_ready [OF this] assms show ?thesis by auto
qed

lemma never_ready: "\<not> ready never_accepted always_refused j"
  by (simp add: ready_def never_accepted_def always_refused_def)

lemma establishConn_result:
  assumes "establishConn a d r i log = Some (c, log')"
  shows "\<exists>k\<ge>i. (\<exists>cs. a k = c # cs) \<or> (a k = [] \<and> d k = (c, None))"
proof -
  from establishConn_needs_ready [OF assms] obtain j where "i \<le> j" "ready a d j" by blast
  from ex_first_ready [OF this] obtain k where k: "first_ready a d i k" ..
  then have ik: "i \<le> k" and rk: "ready a d k" by (simp_all add: first_ready_def)
  from establishConn_first_ready [OF k, of r log] assms
  have val: "(c, log') = (case a k of c # _ \<Rightarrow> (c, log @ retries r (k - i))
          | [] \<Rightarrow> (fst (d k), log @ retries r (k - i) @ [Dial r]))" by simp
  have "(\<exists>cs. a k = c # cs) \<or> (a k = [] \<and> d k = (c, None))"
  proof (cases "a k")
    case Nil
    with rk have "snd (d k) = None" by (simp add: ready_def)
    moreover from val Nil have "fst (d k) = c" by simp
    ultimately have "d k = (c, None)" by (cases "d k") simp
    with Nil show ?thesis by simp
  next
    case (Cons c' cs)
    with val show ?thesis by simp
  qed
  with ik show ?thesis by blast
qed

text \<open>
  Claim C6. The resolver returns if and only if, at some polling iteration from the current
  one on, the inbound slot is filled or the dial of that iteration succeeds. An iteration
  that finds the slot empty and whose dial fails makes exactly one dial attempt, sleeps the
  retry interval of 700 ms and goes on with the next iteration; if the first successful
  iteration is \<open>k\<close>, the resolver has made \<open>k - i\<close> such failed rounds before, for any \<open>k\<close>
  (there is no cap on the attempts). When the slot stays empty and every dial fails the
  resolver never returns.
\<close>

theorem establishConn_terminates_iff:
  "((\<exists>res. establishConn a d r i log = Some res) \<longleftrightarrow> (\<exists>j\<ge>i. ready a d j))
   \<and> (\<not> ready a d i \<longrightarrow>
        establishConn a d r i log =
        establishConn a d r (Suc i) (log @ [Dial r, Sleep (700 * Millisecond)]))
   \<and> (\<forall>k. first_ready a d i k \<longrightarrow>
        establishConn a d r i log =
        Some (case a k of c # _ \<Rightarrow> (c, log @ retries r (k - i))
              | [] \<Rightarrow> (fst (d k), log @ retries r (k - i) @ [Dial r])))
   \<and> ((\<forall>j\<ge>i. \<not> ready a d j) \<longrightarrow> establishConn a d r i log = None)"
proof (intro conjI impI allI)
  show "(\<exists>res. establishConn a d r i log = Some res) \<longleftrightarrow> (\<exists>j\<ge>i. ready a d j)"
  proof
    assume "\<exists>res. establishConn a d r i log = Some res"
    then obtain res where "establishConn a d r i log = Some res" ..
    then show "\<exists>j\<ge>i. ready a d j" by (rule establishConn_needs_ready)
  next
    assume "\<exists>j\<ge>i. ready a d j"
    then obtain j where "i \<le> j" "ready a d j" by blast
    then show "\<exists>res. establishConn a d r i log = Some res" by (rule establishConn_returns)
  qed
next
  assume "\<not> ready a d i"
  from establishConn_retry [OF this]
  show "establishConn a d r i log =
        establishConn a d r (Suc i) (log @ [Dial r, Sleep (700 * Millisecond)])"
    by (simp add: dialRetryEvery_def)
next
  fix k assume "first_ready a d i k"
  then show "establishConn a d r i log =
        Some (case a k of c # _ \<Rightarrow> (c, log @ retries r (k - i))
              | [] \<Rightarrow> (fst (d k), log @ retries r (k - i) @ [Dial r]))"
    by (rule establishConn_first_ready)
next
  assume "\<forall>j\<ge>i. \<not> ready a d j"
  then show "establishConn a d r i log = None" by (rule establishConn_forever)
qed

theorem establishConn_terminates_iff_witness:
  "establishConn never_accepted dialled_from_2 ''127.0.0.1:8081'' 0 [] =
     Some (Conn 2, [Dial ''127.0.0.1:8081'', Sleep 700000000, Dial ''127.0.0.1:8081'',
       Sleep 700000000, Dial ''127.0.0.1:8081''])
   \<and> establishConn never_accepted always_refused ''127.0.0.1:8081'' 0 [] = None"
proof -
  have fr: "first_ready never_accepted dialled_from_2 0 2"
    by (auto simp: first_ready_def ready_def never_accepted_def dialled_from_2_def)
  have nr: "\<forall>j\<ge>0. \<not> ready never_accepted always_refused j"
    by (simp add: never_ready)
  note run = establishConn_terminates_iff [of never_accepted dialled_from_2 "''127.0.0.1:8081''" 0 "[]",
      THEN conjunct2, THEN conjunct2, THEN conjunct1, rule_format, OF fr]
  note loop = establishConn_terminates_iff [of never_accepted always_refused "''127.0.0.1:8081''" 0 "[]",
      THEN conjunct2, THEN conjunct2, THEN conjunct2, THEN mp, OF nr]
  from run have "establishConn never_accepted dialled_from_2 ''127.0.0.1:8081'' 0 [] =
     Some (Conn 2, [Dial ''127.0.0.1:8081'', Sleep 700000000, Dial ''127.0.0.1:8081'',
       Sleep 700000000, Dial ''127.0.0.1:8081''])"
    by (simp add: never_accepted_def dialled_from_2_def retries_def numeral_2_eq_2
        dialRetryEvery_def Millisecond_def)
  with loop show ?thesis by simp
qed

text \<open>
  Claim C1, amended. In every execution in which the slot is filled or a dial succeeds at
  some polling iteration, exactly one connection is returned; in every other execution the
  resolver keeps retrying and returns none. In an iteration that finds the inbound slot
  filled, the inbound connection is returned and no event is added to the log: no dial is
  attempted, whatever the dial of that iteration would have returned.
\<close>

theorem establishConn_one_connection:
  "((\<exists>j\<ge>i. ready a d j) \<longrightarrow> (\<exists>!c. \<exists>log'. establishConn a d r i log = Some (c, log')))
   \<and> ((\<forall>j\<ge>i. \<not> ready a d j) \<longrightarrow> establishConn a d r i log = None)
   \<and> (\<forall>c cs. a i = c # cs \<longrightarrow> establishConn a d r i log = Some (c, log))"
proof (intro conjI impI allI)
  assume "\<exists>j\<ge>i. ready a d j"
  then obtain j where "i \<le> j" "ready a d j" by blast
  from establishConn_returns [OF this] obtain c log' where
    "establishConn a d r i log = Some (c, log')" by force
  then show "\<exists>!c. \<exists>log'. establishConn a d r i log = Some (c, log')" by auto
next
  assume "\<forall>j\<ge>i. \<not> ready a d j"
  then show "establishConn a d r i log = None" by (rule establishConn_forever)
next
  fix c cs assume "a i = c # cs"
  then show "establishConn a d r i log = Some (c, log)" by (rule establishConn_accept)
qed

theorem establishConn_one_connection_witness:
  "establishConn accepted_from_2 dialled_from_2 ''127.0.0.1:8081'' 2 [] = Some (Conn 1, [])
   \<and> establishConn accepted_from_2 dialled_from_2 ''127.0.0.1:8081'' 0 [] \<noteq> None"
proof -
  have "(0::nat) \<le> 2 \<and> ready accepted_from_2 dialled_from_2 2"
    by (simp add: ready_def accepted_from_2_def)
  then have "\<exists>j\<ge>0. ready accepted_from_2 dialled_from_2 j" by (rule exI)
  moreover have "accepted_from_2 2 = Conn 1 # []" by (simp add: accepted_from_2_def)
  ultimately show ?thesis
    using establishConn_one_connection [of 0 accepted_from_2 dialled_from_2 "''127.0.0.1:8081''" "[]"]
      establishConn_one_connection [of 2 accepted_from_2 dialled_from_2 "''127.0.0.1:8081''" "[]"]
    by auto
qed

text \<open>
  The claim as stated, for every execution, fails where nothing is ever accepted and every
  dial is refused: no connection is returned.
\<close>

theorem establishConn_all_refused_counterexample:
  "establishConn never_accepted always_refused (remoteDialAddr peerA) 0 [] = None"
  by (rule establishConn_forever) (simp add: never_ready)

text \<open>
  Claim C10. Under the contract of \<^verbatim>\<open>Accept\<close> and \<^verbatim>\<open>Dial\<close>, a connection returned by the
  resolver is never \<^verbatim>\<open>nil\<close>, so \<^verbatim>\<open>main\<close> never takes the branch that prints
  \<^verbatim>\<open>Failed to establish connection.\<close>
\<close>

theorem establishConn_never_nil:
  assumes "net_ok (accept_result env)" and "\<forall>j. net_ok (dial_result env j)"
  shows "(\<forall>c log'. establishConn (acceptCh_at env) (dial_result env) r i log = Some (c, log')
            \<longrightarrow> c \<noteq> NilConn)
         \<and> main_connect p env \<noteq> Some FailedToEstablish"
proof -
  have nn: "c \<noteq> NilConn"
    if "establishConn (acceptCh_at env) (dial_result env) r i log = Some (c, log')"
    for c r i log log'
  proof -
    from establishConn_result [OF that] obtain k where
      k: "(\<exists>cs. acceptCh_at env k = c # cs) \<or> (acceptCh_at env k = [] \<and> dial_result env k = (c, None))"
      by blast
    then show ?thesis
    proof
      assume "\<exists>cs. acceptCh_at env k = c # cs"
      then have "accept_result env = (c, None)"
        by (cases "accept_result env")
          (auto simp: acceptCh_at_def acceptOnce_def split: option.splits if_splits)
      with assms(1) show ?thesis by (simp add: net_ok_def)
    next
      assume "acceptCh_at env k = [] \<and> dial_result env k = (c, None)"
      with assms(2) [rule_format, of k] show ?thesis by (simp add: net_ok_def)
    qed
  qed
  then have "main_connect p env \<noteq> Some FailedToEstablish"
    by (auto simp: main_connect_def split: option.splits)
  with nn show ?thesis by blast
qed

theorem establishConn_never_nil_witness:
  "main_connect peerB env_accept_2 = Some (Connected (Conn 1))
   \<and> main_connect peerB env_accept_2 \<noteq> Some FailedToEstablish"
proof -
  have a: "net_ok (accept_result env_accept_2)"
    by (simp add: env_accept_2_def net_ok_def)
  have d: "\<forall>j. net_ok (dial_result env_accept_2 j)"
    by (simp add: env_accept_2_def net_ok_def always_refused_def)
  have "establishConn (acceptCh_at env_accept_2) (dial_result env_accept_2) (remoteDialAddr peerB) 0 []
    = Some (Conn 1, retries (remoteDialAddr peerB) 2)"
  proof -
    have "first_ready (acceptCh_at env_accept_2) (dial_result env_accept_2) 0 2"
      by (auto simp: first_ready_def ready_def acceptCh_at_def env_accept_2_def acceptOnce_def
          always_refused_def)
    from establishConn_first_ready [OF this] show ?thesis
      by (simp add: acceptCh_at_def env_accept_2_def acceptOnce_def)
  qed
  then have "main_connect peerB env_accept_2 = Some (Connected (Conn 1))"
    by (simp add: main_connect_def env_accept_2_def)
  with establishConn_never_nil [OF a d, of "remoteDialAddr peerB" 0 "[]" peerB]
  show ?thesis by simp
qed

section \<open>Properties of the shutdown signal\<close>

lemma closeDone_raises: "closeDone d = Some True"
  by (simp add: closeDone_def close_chan_def)

lemma closeDone_one_after_the_other:
  "closeDone_race [Writer, Writer, Reader, Reader] (d, AtSelect, AtSelect) =
     (True, Finished, Finished)"
  by (simp add: close_chan_def)

text \<open>
  Claim C2 asks that raising the signal from two components at once never panics, by an
  atomic check-and-set. In \<^verbatim>\<open>closeDone\<close> the check and the set are two steps: when the writer
  and the reader both find the channel open before either closes it, the second
  \<^verbatim>\<open>close\<close> panics.
\<close>

theorem closeDone_concurrent_double_close:
  "closeDone_race [Writer, Reader, Writer, Reader] (False, AtSelect, AtSelect) =
     (True, Finished, Panicked)"
  by (simp add: close_chan_def)


section \<open>Properties of the scanner\<close>

lemma Scan_Nil: "Scan [] = None"
  by (simp add: Scan_def)

lemma Scan_line:
  assumes "LF \<notin> set m" and "length m < MaxScanTokenSize"
  shows "Scan (m @ LF # rest) = Some (dropCR m, rest)"
proof -
  from assms(1) have "\<forall>c\<in>set m. c \<noteq> LF" by blast
  then have "takeWhile (\<lambda>c. c \<noteq> LF) (m @ LF # rest) = m"
    and "dropWhile (\<lambda>c. c \<noteq> LF) (m @ LF # rest) = LF # rest"
    by (simp_all add: takeWhile_append2 dropWhile_append2)
  with assms(2) show ?thesis by (simp add: Scan_def)
qed

lemma Scan_too_long:
  assumes "LF \<notin> set m" and "MaxScanTokenSize \<le> length m"
  shows "Scan (m @ LF # rest) = None"
proof -
  from assms(1) have "\<forall>c\<in>set m. c \<noteq> LF" by blast
  then have "takeWhile (\<lambda>c. c \<noteq> LF) (m @ LF # rest) = m"
    by (simp add: takeWhile_append2)
  with assms(2) show ?thesis by (simp add: Scan_def)
qed



lemma Scan_token_length:
  assumes "Scan sc = Some (tok, rest)"
  shows "length tok < MaxScanTokenSize"
proof -
  from assms have "tok = dropCR (takeWhile (\<lambda>c. c \<noteq> LF) sc)"
    and "length (takeWhile (\<lambda>c. c \<noteq> LF) sc) < MaxScanTokenSize"
    by (auto simp: Scan_def Let_def split: if_splits)
  moreover have "length (dropCR l) \<le> length l" for l
    by (simp add: dropCR_def)
  ultimately show ?thesis by (meson le_less_trans)
qed

lemma raw_lines_Nil: "raw_lines [] = []"
  by (simp add: raw_lines.simps)

lemma raw_lines_line:
  assumes "LF \<notin> set m"
  shows "raw_lines (m @ LF # rest) = m # raw_lines rest"
proof -
  from assms have "\<forall>c\<in>set m. c \<noteq> LF" by blast
  then have "takeWhile (\<lambda>c. c \<noteq> LF) (m @ LF # rest) = m"
    and "dropWhile (\<lambda>c. c \<noteq> LF) (m @ LF # rest) = LF # rest"
    by (simp_all add: takeWhile_append2 dropWhile_append2)
  then show ?thesis by (subst raw_lines.simps) simp
qed

lemma scanAll_accepted: "scanAll src = map dropCR (accepted_lines src)"
proof (induction src rule: scanAll.induct)
  case (1 src)
  show ?case
  proof (cases "src = []")
    case True
    then show ?thesis
      by (simp add: scanAll.simps [of "[]"] Scan_Nil raw_lines_Nil accepted_lines_def)
  next
    case False
    let ?line = "takeWhile (\<lambda>c. c \<noteq> LF) src"
    let ?rest = "drop 1 (dropWhile (\<lambda>c. c \<noteq> LF) src)"
    from False have raw: "raw_lines src = ?line # raw_lines ?rest"
      by (subst raw_lines.simps) simp
    show ?thesis
    proof (cases "MaxScanTokenSize \<le> length ?line")
      case True
      with False have "Scan src = None" by (simp add: Scan_def)
      with True raw show ?thesis
        by (simp add: scanAll.simps [of src] accepted_lines_def)
    next
      case fits: False
      with False have sc: "Scan src = Some (dropCR ?line, ?rest)"
        by (simp add: Scan_def)
      from 1 [OF sc refl] have "scanAll ?rest = map dropCR (accepted_lines ?rest)" .
      with sc fits raw show ?thesis
        by (simp add: scanAll.simps [of src] accepted_lines_def)
    qed
  qed
qed

section \<open>Properties of the pumps\<close>

lemma raise_done_returns: "raise_done s = Returned (s\<lparr>doneCh := True\<rparr>)"
  by (simp add: raise_done_def closeDone_raises)

lemma connReader_end: "connReader [] s = Returned (s\<lparr>doneCh := True\<rparr>)"
  by (simp add: connReader.simps Scan_Nil raise_done_returns)

lemma connReader_line:
  assumes "LF \<notin> set m" and "length m < MaxScanTokenSize"
  shows "connReader (m @ LF # rest) s =
    connReader rest (s\<lparr>incoming := incoming s @ [''RECV -> '' @ dropCR m]\<rparr>)"
  by (subst connReader.simps) (simp add: Scan_line [OF assms])


lemma connReader_lines:
  assumes "\<forall>m\<in>set msgs. LF \<notin> set m \<and> length m < MaxScanTokenSize"
  shows "connReader (concat (map (\<lambda>m. m @ [LF]) msgs)) s =
    Returned (s\<lparr>incoming := incoming s @ map (\<lambda>m. ''RECV -> '' @ dropCR m) msgs,
      doneCh := True\<rparr>)"
  using assms
proof (induction msgs arbitrary: s)
  case Nil
  then show ?case by (simp add: connReader_end)
next
  case (Cons m msgs)
  then have m: "LF \<notin> set m" "length m < MaxScanTokenSize"
    and rest: "\<forall>m\<in>set msgs. LF \<notin> set m \<and> length m < MaxScanTokenSize"
    by simp_all
  have "connReader (concat (map (\<lambda>m. m @ [LF]) (m # msgs))) s =
    connReader (m @ LF # concat (map (\<lambda>m. m @ [LF]) msgs)) s"
    by simp
  also have "\<dots> = connReader (concat (map (\<lambda>m. m @ [LF]) msgs))
      (s\<lparr>incoming := incoming s @ [''RECV -> '' @ dropCR m]\<rparr>)"
    by (rule connReader_line [OF m])
  also have "\<dots> = Returned (s\<lparr>incoming := incoming s @ map (\<lambda>m. ''RECV -> '' @ dropCR m) (m # msgs),
      doneCh := True\<rparr>)"
    by (simp add: Cons.IH [OF rest])
  finally show ?case .
qed

lemma wire_sent_block: "wire (sent_block t m @ es) = m @ LF # wire es"
  by (simp add: sent_block_def)

lemma connWriter_done:
  "doneCh s \<Longrightarrow> outgoing s = [] \<or> pickDone env i \<Longrightarrow> connWriter env i s = Returned s"
  by (subst connWriter.simps) simp

lemma connWriter_waiting:
  "\<not> doneCh s \<Longrightarrow> outgoing s = [] \<Longrightarrow> connWriter env i s = Waiting s"
  by (subst connWriter.simps) simp

lemma connWriter_message:
  assumes "outgoing s = msg # queued" and "\<not> (doneCh s \<and> pickDone env i)"
  shows "connWriter env i s =
    (let log = connLog s @ [SetWriteDeadline (now env i + connWriteTimeout),
           WriteString (msg @ [LF]) (writeString env i)]
     in if writeString env i \<noteq> None
        then Returned (s\<lparr>outgoing := queued, connLog := log, doneCh := True\<rparr>)
        else if flush env i \<noteq> None
        then Returned (s\<lparr>outgoing := queued, connLog := log @ [Flush (flush env i)],
          doneCh := True\<rparr>)
        else connWriter env (Suc i) (s\<lparr>outgoing := queued, connLog := log @ [Flush None]\<rparr>))"
  using assms
  by (subst connWriter.simps) (auto simp: Let_def raise_done_returns split: option.splits)


lemma wire_sent_log: "wire (sent_log env i ms) = concat (map (\<lambda>m. m @ [LF]) ms)"
  by (induction ms arbitrary: i) (simp_all add: wire_sent_block)

lemma connWriter_sends:
  assumes "\<not> doneCh s" and "\<forall>j<length (outgoing s). \<not> write_fails env (i + j)"
  shows "connWriter env i s =
    Waiting (s\<lparr>outgoing := [], connLog := connLog s @ sent_log env i (outgoing s)\<rparr>)"
  using assms
proof (induction "outgoing s" arbitrary: i s)
  case Nil
  then have "outgoing s = []" by simp
  with Nil(2) show ?case by (simp add: connWriter_waiting)
next
  case (Cons msg queued)
  from Cons(2) have out: "outgoing s = msg # queued" by simp
  from Cons(4) out have here: "\<not> write_fails env i"
    by (metis add.right_neutral length_greater_0_conv list.distinct(1))
  define s' where "s' = s\<lparr>outgoing := queued,
    connLog := connLog s @ sent_block (now env i + connWriteTimeout) msg\<rparr>"
  have q: "queued = outgoing s'" and nd: "\<not> doneCh s'"
    using Cons(3) by (simp_all add: s'_def)
  have later: "\<forall>j<length (outgoing s'). \<not> write_fails env (Suc i + j)"
  proof (intro allI impI)
    fix j assume "j < length (outgoing s')"
    with out have "Suc j < length (outgoing s)" by (simp add: s'_def)
    with Cons(4) have "\<not> write_fails env (i + Suc j)" by blast
    then show "\<not> write_fails env (Suc i + j)" by simp
  qed
  from here Cons(3) have "connWriter env i s = connWriter env (Suc i) s'"
    by (simp add: connWriter_message [OF out] write_fails_def s'_def sent_block_def)
  also from Cons(1) [OF q nd later]
  have "\<dots> = Waiting (s'\<lparr>outgoing := [], connLog := connLog s' @ sent_log env (Suc i) (outgoing s')\<rparr>)" .
  also have "\<dots> = Waiting (s\<lparr>outgoing := [], connLog := connLog s @ sent_log env i (outgoing s)\<rparr>)"
    by (simp add: s'_def out)
  finally show ?case .
qed

lemma connWriter_failure:
  assumes "\<not> doneCh s" and "j < length (outgoing s)" and "write_fails env (i + j)"
  shows "\<exists>s'. connWriter env i s = Returned s' \<and> doneCh s'"
  using assms
proof (induction "outgoing s" arbitrary: i j s)
  case Nil
  then show ?case by simp
next
  case (Cons msg queued)
  from Cons(2) have out: "outgoing s = msg # queued" by simp
  show ?case
  proof (cases "write_fails env i")
    case True
    with Cons(3) show ?thesis
      by (auto simp: connWriter_message [OF out] write_fails_def Let_def)
  next
    case False
    define s' where "s' = s\<lparr>outgoing := queued,
      connLog := connLog s @ sent_block (now env i + connWriteTimeout) msg\<rparr>"
    have q: "queued = outgoing s'" and nd: "\<not> doneCh s'"
      using Cons(3) by (simp_all add: s'_def)
    from False Cons(5) have "j \<noteq> 0" by (cases j) auto
    then obtain j' where j: "j = Suc j'" by (cases j) auto
    with Cons(4) out have lt: "j' < length (outgoing s')" by (simp add: s'_def)
    from Cons(5) j have wf: "write_fails env (Suc i + j')" by simp
    from False Cons(3) have "connWriter env i s = connWriter env (Suc i) s'"
      by (simp add: connWriter_message [OF out] write_fails_def s'_def sent_block_def)
    with Cons(1) [OF q nd lt wf] show ?thesis by simp
  qed
qed

text \<open>
  Claim C4. When \<^verbatim>\<open>connWriter\<close> takes a message from the queue it sets the write deadline to
  the current time plus 5 seconds, then writes the message followed by one newline, then
  flushes; the deadline is set anew for every message. It raises the signal and returns
  exactly when the write or the flush fails, and goes on with the next iteration otherwise.
  Over a whole run that starts with the signal not raised, it returns with the signal
  raised if and only if the write or flush of one of the queued messages fails.
\<close>

theorem connWriter_write_under_deadline:
  "(\<forall>msg queued. outgoing s = msg # queued \<and> \<not> (doneCh s \<and> pickDone env i) \<longrightarrow>
      connWriter env i s =
        (let log = connLog s @ [SetWriteDeadline (now env i + 5 * Second),
               WriteString (msg @ [LF]) (writeString env i)]
         in if writeString env i \<noteq> None
            then Returned (s\<lparr>outgoing := queued, connLog := log, doneCh := True\<rparr>)
            else if flush env i \<noteq> None
            then Returned (s\<lparr>outgoing := queued, connLog := log @ [Flush (flush env i)],
              doneCh := True\<rparr>)
            else connWriter env (Suc i)
              (s\<lparr>outgoing := queued, connLog := log @ [Flush None]\<rparr>)))
   \<and> (\<not> doneCh s \<longrightarrow>
        ((\<exists>s'. connWriter env i s = Returned s' \<and> doneCh s') \<longleftrightarrow>
         (\<exists>j<length (outgoing s). write_fails env (i + j))))"
proof (intro conjI allI impI)
  fix msg queued
  assume "outgoing s = msg # queued \<and> \<not> (doneCh s \<and> pickDone env i)"
  then have "outgoing s = msg # queued" "\<not> (doneCh s \<and> pickDone env i)" by simp_all
  from connWriter_message [OF this]
  show "connWriter env i s =
        (let log = connLog s @ [SetWriteDeadline (now env i + 5 * Second),
               WriteString (msg @ [LF]) (writeString env i)]
         in if writeString env i \<noteq> None
            then Returned (s\<lparr>outgoing := queued, connLog := log, doneCh := True\<rparr>)
            else if flush env i \<noteq> None
            then Returned (s\<lparr>outgoing := queued, connLog := log @ [Flush (flush env i)],
              doneCh := True\<rparr>)
            else connWriter env (Suc i)
              (s\<lparr>outgoing := queued, connLog := log @ [Flush None]\<rparr>))"
    by (simp add: connWriteTimeout_def)
next
  assume nd: "\<not> doneCh s"
  show "(\<exists>s'. connWriter env i s = Returned s' \<and> doneCh s') \<longleftrightarrow>
         (\<exists>j<length (outgoing s). write_fails env (i + j))"
  proof
    assume "\<exists>s'. connWriter env i s = Returned s' \<and> doneCh s'"
    then obtain s' where r: "connWriter env i s = Returned s'" by blast
    show "\<exists>j<length (outgoing s). write_fails env (i + j)"
    proof (rule ccontr)
      assume "\<not> (\<exists>j<length (outgoing s). write_fails env (i + j))"
      then have "\<forall>j<length (outgoing s). \<not> write_fails env (i + j)" by simp
      from connWriter_sends [OF nd this] r show False by simp
    qed
  next
    assume "\<exists>j<length (outgoing s). write_fails env (i + j)"
    then obtain j where "j < length (outgoing s)" "write_fails env (i + j)" by blast
    from connWriter_failure [OF nd this]
    show "\<exists>s'. connWriter env i s = Returned s' \<and> doneCh s'" .
  qed
qed

theorem connWriter_write_under_deadline_witness:
  "connWriter flush_fails 0 (session0\<lparr>outgoing := [''A: hi'', ''A: there'']\<rparr>) =
     Returned (session0\<lparr>outgoing := [''A: there''],
       connLog := [SetWriteDeadline 5000000000, WriteString (''A: hi'' @ [LF]) None,
         Flush (Some (Error ''i/o timeout''))],
       doneCh := True\<rparr>)"
proof -
  have "outgoing (session0\<lparr>outgoing := [''A: hi'', ''A: there'']\<rparr>) = ''A: hi'' # [''A: there'']
    \<and> \<not> (doneCh (session0\<lparr>outgoing := [''A: hi'', ''A: there'']\<rparr>) \<and> pickDone flush_fails 0)"
    by (simp add: session0_def)
  from connWriter_write_under_deadline [of "session0\<lparr>outgoing := [''A: hi'', ''A: there'']\<rparr>"
      flush_fails 0, THEN conjunct1, rule_format, OF this]
  show ?thesis
    by (simp add: flush_fails_def session0_def Second_def Millisecond_def)
qed

lemma connWriter_fails:
  assumes "outgoing s = msg # queued" and "\<not> (doneCh s \<and> pickDone env i)"
    and "write_fails env i"
  shows "\<exists>s'. connWriter env i s = Returned s' \<and> doneCh s' \<and> outgoing s' = queued"
proof (cases "writeString env i")
  case None
  with assms(3) have "flush env i \<noteq> None" by (simp add: write_fails_def)
  with None show ?thesis
    by (simp add: connWriter_message [OF assms(1,2)] Let_def)
next
  case (Some e)
  then show ?thesis
    by (simp add: connWriter_message [OF assms(1,2)] Let_def)
qed

lemma connWriter_exits_leaving:
  "doneCh s \<Longrightarrow>
   \<exists>s' k. connWriter env i s = Returned s' \<and> doneCh s' \<and> k \<le> length (outgoing s)
     \<and> outgoing s' = drop k (outgoing s)"
proof (induction "outgoing s" arbitrary: i s)
  case Nil
  then have "outgoing s = []" by simp
  with Nil(2) have "connWriter env i s = Returned s \<and> doneCh s \<and> 0 \<le> length (outgoing s)
      \<and> outgoing s = drop 0 (outgoing s)"
    by (simp add: connWriter_done)
  then show ?case by blast
next
  case (Cons msg queued)
  from Cons(2) have out: "outgoing s = msg # queued" by simp
  show ?case
  proof (cases "pickDone env i")
    case True
    with Cons(3) have "connWriter env i s = Returned s \<and> doneCh s \<and> 0 \<le> length (outgoing s)
        \<and> outgoing s = drop 0 (outgoing s)"
      by (simp add: connWriter_done)
    then show ?thesis by blast
  next
    case False
    then have np: "\<not> (doneCh s \<and> pickDone env i)" by simp
    show ?thesis
    proof (cases "write_fails env i")
      case True
      from connWriter_fails [OF out np True]
      obtain s' where "connWriter env i s = Returned s'" "doneCh s'" "outgoing s' = queued"
        by blast
      with out have "connWriter env i s = Returned s' \<and> doneCh s' \<and> 1 \<le> length (outgoing s)
          \<and> outgoing s' = drop 1 (outgoing s)"
        by simp
      then show ?thesis by blast
    next
      case False
      define s1 where "s1 = s\<lparr>outgoing := queued,
        connLog := connLog s @ sent_block (now env i + connWriteTimeout) msg\<rparr>"
      have q: "queued = outgoing s1" and d: "doneCh s1"
        using Cons(3) by (simp_all add: s1_def)
      from False have "connWriter env i s = connWriter env (Suc i) s1"
        by (simp add: connWriter_message [OF out np] write_fails_def s1_def sent_block_def)
      moreover from Cons(1) [OF q d] obtain s' k where
        "connWriter env (Suc i) s1 = Returned s'" "doneCh s'" "k \<le> length (outgoing s1)"
        "outgoing s' = drop k (outgoing s1)"
        by blast
      ultimately have "connWriter env i s = Returned s' \<and> doneCh s'
          \<and> Suc k \<le> length (outgoing s) \<and> outgoing s' = drop (Suc k) (outgoing s)"
        using out by (simp add: s1_def)
      then show ?thesis by blast
    qed
  qed
qed

text \<open>
  Claim C5, amended. When the \<^verbatim>\<open>select\<close> of \<^verbatim>\<open>connWriter\<close> takes the signal, which it must
  when the signal is raised and no message is queued and may when one is, it returns at
  once: the queue, the connection and everything else are as they were. When a queued
  message and the raised signal are ready together the \<^verbatim>\<open>select\<close> may take the message
  instead: the message is written and the loop goes on. In every case the writer returns
  with the signal raised, leaving the part of the queue that it has not taken.
\<close>

theorem connWriter_stops_on_signal:
  assumes "doneCh s"
  shows "((outgoing s = [] \<or> pickDone env i) \<longrightarrow> connWriter env i s = Returned s)
    \<and> (\<forall>msg queued. outgoing s = msg # queued \<and> \<not> pickDone env i \<and> \<not> write_fails env i \<longrightarrow>
          connWriter env i s =
          connWriter env (Suc i) (s\<lparr>outgoing := queued,
            connLog := connLog s @ [SetWriteDeadline (now env i + connWriteTimeout),
              WriteString (msg @ [LF]) None, Flush None]\<rparr>))
    \<and> (\<exists>s' k. connWriter env i s = Returned s' \<and> doneCh s' \<and> k \<le> length (outgoing s)
          \<and> outgoing s' = drop k (outgoing s))"
proof (intro conjI impI allI)
  assume "outgoing s = [] \<or> pickDone env i"
  with assms show "connWriter env i s = Returned s" by (rule connWriter_done)
next
  fix msg queued
  assume a: "outgoing s = msg # queued \<and> \<not> pickDone env i \<and> \<not> write_fails env i"
  then have out: "outgoing s = msg # queued" and np: "\<not> (doneCh s \<and> pickDone env i)"
    by simp_all
  from a show "connWriter env i s =
          connWriter env (Suc i) (s\<lparr>outgoing := queued,
            connLog := connLog s @ [SetWriteDeadline (now env i + connWriteTimeout),
              WriteString (msg @ [LF]) None, Flush None]\<rparr>)"
    by (simp add: connWriter_message [OF out np] write_fails_def)
next
  from assms show "\<exists>s' k. connWriter env i s = Returned s' \<and> doneCh s' \<and> k \<le> length (outgoing s)
          \<and> outgoing s' = drop k (outgoing s)"
    by (rule connWriter_exits_leaving)
qed

theorem connWriter_stops_on_signal_witness:
  "connWriter all_ok 0 (session0\<lparr>doneCh := True, outgoing := [''A: unsent'', ''A: too'']\<rparr>) =
     Returned (session0\<lparr>doneCh := True, outgoing := [''A: unsent'', ''A: too'']\<rparr>)"
proof -
  have "doneCh (session0\<lparr>doneCh := True, outgoing := [''A: unsent'', ''A: too'']\<rparr>)"
    by simp
  from connWriter_stops_on_signal [OF this, of all_ok 0, THEN conjunct1]
  show ?thesis by (simp add: all_ok_def)
qed

text \<open>
  The claim as stated fails when the \<^verbatim>\<open>select\<close> takes the message each time both cases are
  ready: with the signal raised from the start, both queued lines are sent.
\<close>

theorem connWriter_sends_after_signal_counterexample:
  "connWriter picks_message 0 (session0\<lparr>doneCh := True, outgoing := [''A: unsent'', ''A: too'']\<rparr>) =
     Returned (session0\<lparr>doneCh := True, outgoing := [],
       connLog := [SetWriteDeadline 5000000000, WriteString (''A: unsent'' @ [LF]) None, Flush None,
         SetWriteDeadline 5000000000, WriteString (''A: too'' @ [LF]) None, Flush None]\<rparr>)"
  apply (subst connWriter.simps)
  apply (simp add: picks_message_def session0_def connWriteTimeout_def Second_def Millisecond_def)
  apply (subst connWriter.simps)
  apply (simp add: picks_message_def connWriteTimeout_def Second_def Millisecond_def)
  apply (subst connWriter.simps)
  apply simp
  done

text \<open>
  Claim C7. With no write failing and the signal not raised, the writer sends every queued
  line, each followed by a newline, in queue order; the reader of the other peer, given
  these bytes, appends one line per message to its incoming queue in the same order (a
  line of the queue holds no newline and is short enough for the scanner, which any line
  of the producer is unless the reader stops and raises the signal).
\<close>

theorem fifo_delivery:
  assumes "\<forall>m\<in>set (outgoing sA). LF \<notin> set m \<and> length m < MaxScanTokenSize"
    and "\<forall>j. \<not> write_fails env j"
    and "\<not> doneCh sA" and "connLog sA = []"
  shows "connWriter env i sA =
      Waiting (sA\<lparr>outgoing := [], connLog := sent_log env i (outgoing sA)\<rparr>)
    \<and> wire (sent_log env i (outgoing sA)) = concat (map (\<lambda>m. m @ [LF]) (outgoing sA))
    \<and> connReader (wire (sent_log env i (outgoing sA))) sB =
        Returned (sB\<lparr>incoming := incoming sB @ map (\<lambda>m. ''RECV -> '' @ dropCR m) (outgoing sA),
          doneCh := True\<rparr>)"
proof -
  from assms(2) have "\<forall>j<length (outgoing sA). \<not> write_fails env (i + j)" by simp
  from connWriter_sends [OF assms(3) this]
  have "connWriter env i sA =
      Waiting (sA\<lparr>outgoing := [], connLog := sent_log env i (outgoing sA)\<rparr>)"
    by (simp add: assms(4))
  moreover from connReader_lines [OF assms(1)]
  have "connReader (wire (sent_log env i (outgoing sA))) sB =
        Returned (sB\<lparr>incoming := incoming sB @ map (\<lambda>m. ''RECV -> '' @ dropCR m) (outgoing sA),
          doneCh := True\<rparr>)"
    by (simp add: wire_sent_log)
  ultimately show ?thesis by (simp add: wire_sent_log)
qed

theorem fifo_delivery_witness:
  "connWriter all_ok 0 (session0\<lparr>outgoing := [''A: one'', ''A: two'']\<rparr>) =
     Waiting (session0\<lparr>outgoing := [],
       connLog := [SetWriteDeadline 5000000000, WriteString (''A: one'' @ [LF]) None, Flush None,
         SetWriteDeadline 5000000000, WriteString (''A: two'' @ [LF]) None, Flush None]\<rparr>)
   \<and> connReader (''A: one'' @ [LF] @ ''A: two'' @ [LF]) session0 =
     Returned (session0\<lparr>incoming := [''RECV -> A: one'', ''RECV -> A: two''], doneCh := True\<rparr>)"
proof -
  have 1: "\<forall>m\<in>set (outgoing (session0\<lparr>outgoing := [''A: one'', ''A: two'']\<rparr>)).
      LF \<notin> set m \<and> length m < MaxScanTokenSize"
    by (simp add: LF_def MaxScanTokenSize_def)
  have 2: "\<forall>j. \<not> write_fails all_ok j"
    by (simp add: write_fails_def all_ok_def)
  have 3: "\<not> doneCh (session0\<lparr>outgoing := [''A: one'', ''A: two'']\<rparr>)"
    and 4: "connLog (session0\<lparr>outgoing := [''A: one'', ''A: two'']\<rparr>) = []"
    by (simp_all add: session0_def)
  from fifo_delivery [OF 1 2 3 4, of 0 session0]
  show ?thesis
    by (simp add: sent_block_def all_ok_def connWriteTimeout_def Second_def Millisecond_def
        dropCR_def CR_def session0_def)
qed



section \<open>Properties of trimming\<close>










section \<open>Properties of the line producer\<close>

lemma stdinReader_forwards:
  "\<not> doneCh s \<Longrightarrow>
   stdinReader tag sc s = s\<lparr>outgoing := outgoing s @ map (\<lambda>l. tag @ l) (typed_lines sc)\<rparr>"
proof (induction tag sc s rule: stdinReader.induct)
  case (1 tag sc s)
  show ?case
  proof (cases "Scan sc")
    case None
    with 1(3) show ?thesis
      by (subst stdinReader.simps) (simp add: typed_lines_def scanAll.simps [of sc])
  next
    case (Some x)
    obtain tok sc' where x: "x = (tok, sc')" by (cases x)
    show ?thesis
    proof (cases "TrimSpace tok = []")
      case True
      from 1(1) [OF 1(3) Some x [symmetric] refl True] 1(3)
      have "stdinReader tag sc' s = s\<lparr>outgoing := outgoing s @ map (\<lambda>l. tag @ l) (typed_lines sc')\<rparr>"
        by simp
      with 1(3) Some x True show ?thesis
        by (subst stdinReader.simps) (simp add: typed_lines_def scanAll.simps [of sc])
    next
      case False
      define s' where "s' = s\<lparr>outgoing := outgoing s @ [tag @ TrimSpace tok]\<rparr>"
      from 1(3) have "\<not> doneCh s'" by (simp add: s'_def)
      from 1(2) [OF 1(3) Some x [symmetric] refl False, folded s'_def, OF this]
      have "stdinReader tag sc' s' = s'\<lparr>outgoing := outgoing s' @ map (\<lambda>l. tag @ l) (typed_lines sc')\<rparr>" .
      with 1(3) Some x False show ?thesis
        by (subst stdinReader.simps) (simp add: typed_lines_def scanAll.simps [of sc] s'_def)
    qed
  qed
qed

lemma stdinReader_signalled: "doneCh s \<Longrightarrow> stdinReader tag sc s = s"
  by (subst stdinReader.simps) simp







lemma typed_lines_accepted:
  "typed_lines src =
     filter (\<lambda>l. l \<noteq> []) (map (\<lambda>r. TrimSpace (dropCR r)) (accepted_lines src))"
  by (simp add: typed_lines_def scanAll_accepted comp_def)

lemma accepted_all:
  "\<forall>r\<in>set (raw_lines src). length r < MaxScanTokenSize \<Longrightarrow> accepted_lines src = raw_lines src"
  by (simp add: accepted_lines_def)

text \<open>
  Claim C8, amended. While the signal is not raised, \<^verbatim>\<open>stdinReader\<close> forwards, in order and
  behind the tag, the trimmed form of every input line that is not empty after trimming,
  up to the first line of 65536 bytes or more, and nothing else; these are all the lines of
  the input when each is shorter than that. It returns at such a line as at the end of its
  input, and the shutdown signal is then as it was before.
\<close>

theorem stdinReader_trims_and_skips:
  "stdinReader tag sc s =
     (if doneCh s then s
      else s\<lparr>outgoing := outgoing s @
        map (\<lambda>l. tag @ l)
          (filter (\<lambda>l. l \<noteq> []) (map (\<lambda>r. TrimSpace (dropCR r)) (accepted_lines sc)))\<rparr>)
   \<and> doneCh (stdinReader tag sc s) = doneCh s
   \<and> ((\<forall>r\<in>set (raw_lines sc). length r < MaxScanTokenSize) \<longrightarrow>
        accepted_lines sc = raw_lines sc)"
proof (cases "doneCh s")
  case True
  then show ?thesis by (simp add: stdinReader_signalled accepted_all)
next
  case False
  then show ?thesis
    by (simp add: stdinReader_forwards typed_lines_accepted accepted_all)
qed

lemmas eval_lines = typed_lines_def scanAll.simps Scan_def TrimSpace_def TrimLeft.simps
  TrimRight.simps leadingSpace_def trailingSpace_def whiteSpace_def LF_def CR_def dropCR_def
  MaxScanTokenSize_def suffix_to_prefix Let_def

lemma typed_example:
  "typed_lines (''  hello '' @ [LF, LF, CHR 0x09, LF] @ ''bye'' @ [CR, LF]) = [''hello'', ''bye'']"
  by (simp add: eval_lines)

lemma trim_example:
  "TrimSpace ([CHR 0xC2, CHR 0xA0] @ ''x y'' @ [CHR 0xE3, CHR 0x80, CHR 0x80, CR]) = ''x y''"
  by (simp add: eval_lines)

theorem stdinReader_trims_and_skips_witness:
  "stdinReader ''A: '' (''  hello '' @ [LF, LF, CHR 0x09, LF] @ ''bye'' @ [CR, LF]) session0 =
     session0\<lparr>outgoing := [''A: hello'', ''A: bye'']\<rparr>"
proof -
  have "\<not> doneCh session0" and "outgoing session0 = []"
    by (simp_all add: session0_def)
  with stdinReader_trims_and_skips [of "''A: ''"
      "''  hello '' @ [LF, LF, CHR 0x09, LF] @ ''bye'' @ [CR, LF]" session0,
      folded typed_lines_accepted]
    typed_example
  show ?thesis by simp
qed

lemma blank_line_facts: "length blank_line = 65536" "LF \<notin> set blank_line"
  by (simp_all add: blank_line_def LF_def)

text \<open>
  The claim as stated fails on an input whose first line has 65536 blanks: the scanner
  stops there, the producer returns before the end of its input, and the second line,
  \<^verbatim>\<open>hello\<close>, is never forwarded.
\<close>

theorem stdinReader_long_line_counterexample:
  "raw_lines (blank_line @ [LF] @ ''hello'' @ [LF]) = [blank_line, ''hello'']
   \<and> TrimSpace (dropCR ''hello'') = ''hello''
   \<and> stdinReader ''A: '' (blank_line @ [LF] @ ''hello'' @ [LF]) session0 = session0"
proof -
  have "raw_lines (''hello'' @ LF # []) = [''hello'']"
    using raw_lines_line [of "''hello''" "[]"] by (simp add: raw_lines_Nil LF_def)
  moreover have "raw_lines (blank_line @ LF # ''hello'' @ LF # []) =
      blank_line # raw_lines (''hello'' @ LF # [])"
    by (rule raw_lines_line) (rule blank_line_facts)
  ultimately have 1: "raw_lines (blank_line @ [LF] @ ''hello'' @ [LF]) = [blank_line, ''hello'']"
    by simp
  have 2: "TrimSpace (dropCR ''hello'') = ''hello''"
    by (simp add: eval_lines)
  have "Scan (blank_line @ LF # ''hello'' @ LF # []) = None"
    by (rule Scan_too_long) (simp_all add: blank_line_facts MaxScanTokenSize_def)
  then have 3: "stdinReader ''A: '' (blank_line @ [LF] @ ''hello'' @ [LF]) session0 = session0"
    by (subst stdinReader.simps) simp
  from 1 2 3 show ?thesis by blast
qed









section \<open>The two views of the line producer\<close>

text \<open>
  With standard input closed and room in the queue for all its lines, the steps lead to
  \<open>Exited\<close> with the session that \<open>stdinReader\<close> computes.
\<close>

lemma stdinReader_run_stuck:
  "stdinReader_step tag st = None \<Longrightarrow> stdinReader_run n tag st = st"
  by (cases n) simp_all

lemma stdinReader_run_add:
  "stdinReader_run (m + n) tag st = stdinReader_run n tag (stdinReader_run m tag st)"
proof (induction m arbitrary: st)
  case 0
  then show ?case by simp
next
  case (Suc m)
  show ?case
  proof (cases "stdinReader_step tag st")
    case None
    then show ?thesis by (simp add: stdinReader_run_stuck)
  next
    case (Some st')
    with Suc show ?thesis by simp
  qed
qed

lemma typed_lines_step:
  "Scan sc = Some (tok, sc') \<Longrightarrow>
   typed_lines sc = (if TrimSpace tok = [] then [] else [TrimSpace tok]) @ typed_lines sc'"
  by (simp add: typed_lines_def scanAll.simps [of sc])

lemma stdinReader_steps_agree:
  assumes "length (outgoing s) + length (typed_lines sc) \<le> queueCap"
  shows "\<exists>n rest. stdinReader_run n tag (Polling, (sc, True), s) =
    (Exited, (rest, True), stdinReader tag sc s)"
  using assms
proof (induction tag sc s rule: stdinReader.induct)
  case (1 tag sc s)
  show ?case
  proof (cases "doneCh s")
    case True
    then have "stdinReader_run 1 tag (Polling, (sc, True), s) = (Exited, (sc, True), stdinReader tag sc s)"
      by (simp add: stdinReader_signalled)
    then show ?thesis by blast
  next
    case nd: False
    show ?thesis
    proof (cases "Scan sc")
      case None
      with nd have "stdinReader_run 2 tag (Polling, (sc, True), s) =
          (Exited, (sc, True), stdinReader tag sc s)"
        by (simp add: numeral_2_eq_2 Scan_blocking_def stdinReader.simps [of tag sc s])
      then show ?thesis by blast
    next
      case (Some x)
      obtain tok sc' where x: "x = (tok, sc')" by (cases x)
      note tl = typed_lines_step [OF Some [unfolded x]]
      show ?thesis
      proof (cases "TrimSpace tok = []")
        case True
        with tl 1(3) have "length (outgoing s) + length (typed_lines sc') \<le> queueCap" by simp
        from 1(1) [OF nd Some x [symmetric] refl True this]
        obtain n rest where n: "stdinReader_run n tag (Polling, (sc', True), s) =
            (Exited, (rest, True), stdinReader tag sc' s)" by blast
        from nd Some x True have two: "stdinReader_run 2 tag (Polling, (sc, True), s) =
            (Polling, (sc', True), s)"
          by (simp add: numeral_2_eq_2 Scan_blocking_def)
        from nd Some x True have "stdinReader tag sc s = stdinReader tag sc' s"
          by (subst stdinReader.simps) simp
        with n two have "stdinReader_run (2 + n) tag (Polling, (sc, True), s) =
            (Exited, (rest, True), stdinReader tag sc s)"
          by (simp only: stdinReader_run_add)
        then show ?thesis by blast
      next
        case False
        define s' where "s' = s\<lparr>outgoing := outgoing s @ [tag @ TrimSpace tok]\<rparr>"
        from False tl 1(3) have room: "length (outgoing s) < queueCap"
          and "length (outgoing s') + length (typed_lines sc') \<le> queueCap"
          by (simp_all add: s'_def)
        from 1(2) [OF nd Some x [symmetric] refl False, folded s'_def, OF this(2)]
        obtain n rest where n: "stdinReader_run n tag (Polling, (sc', True), s') =
            (Exited, (rest, True), stdinReader tag sc' s')" by blast
        from nd Some x False room have three: "stdinReader_run 3 tag (Polling, (sc, True), s) =
            (Polling, (sc', True), s')"
          by (simp add: numeral_3_eq_3 Scan_blocking_def s'_def)
        from nd Some x False have "stdinReader tag sc s = stdinReader tag sc' s'"
          by (subst stdinReader.simps) (simp add: s'_def)
        with n three have "stdinReader_run (3 + n) tag (Polling, (sc, True), s) =
            (Exited, (rest, True), stdinReader tag sc s)"
          by (simp only: stdinReader_run_add)
        then show ?thesis by blast
      qed
    qed
  qed
qed

section \<open>Observing the shutdown signal\<close>

lemma connWriter_exits:
  "doneCh s \<Longrightarrow> \<exists>s'. connWriter env i s = Returned s'"
proof (induction "outgoing s" arbitrary: i s)
  case Nil
  then have "outgoing s = []" by simp
  with Nil(2) show ?case by (simp add: connWriter_done)
next
  case (Cons msg queued)
  from Cons(2) have out: "outgoing s = msg # queued" by simp
  show ?case
  proof (cases "pickDone env i")
    case True
    with Cons(3) show ?thesis by (simp add: connWriter_done)
  next
    case False
    then have np: "\<not> (doneCh s \<and> pickDone env i)" by simp
    show ?thesis
    proof (cases "write_fails env i")
      case True
      then show ?thesis
        by (auto simp: connWriter_message [OF out np] write_fails_def Let_def)
    next
      case False
      define s' where "s' = s\<lparr>outgoing := queued,
        connLog := connLog s @ sent_block (now env i + connWriteTimeout) msg\<rparr>"
      have q: "queued = outgoing s'" and d: "doneCh s'"
        using Cons(3) by (simp_all add: s'_def)
      from False have "connWriter env i s = connWriter env (Suc i) s'"
        by (simp add: connWriter_message [OF out np] write_fails_def s'_def sent_block_def)
      with Cons(1) [OF q d] show ?thesis by simp
    qed
  qed
qed

lemma main_loop_done:
  "doneCh s \<Longrightarrow> incoming s = [] \<or> pick i \<Longrightarrow>
   main_loop pick i s = Returned (s\<lparr>console := console s @ [''Connection closed. Bye.'']\<rparr>)"
  by (subst main_loop.simps) simp

lemma main_loop_message:
  "incoming s = msg # queued \<Longrightarrow> \<not> (doneCh s \<and> pick i) \<Longrightarrow>
   main_loop pick i s =
   main_loop pick (Suc i) (s\<lparr>incoming := queued, console := console s @ [msg]\<rparr>)"
  by (subst main_loop.simps) auto

lemma main_loop_exits:
  "doneCh s \<Longrightarrow> \<exists>s'. main_loop pick i s = Returned s'"
proof (induction "incoming s" arbitrary: i s)
  case Nil
  then have "incoming s = []" by simp
  with Nil(2) show ?case by (simp add: main_loop_done)
next
  case (Cons msg queued)
  from Cons(2) have inc: "incoming s = msg # queued" by simp
  show ?case
  proof (cases "pick i")
    case True
    with Cons(3) show ?thesis by (simp add: main_loop_done)
  next
    case False
    define s' where "s' = s\<lparr>incoming := queued, console := console s @ [msg]\<rparr>"
    have q: "queued = incoming s'" and d: "doneCh s'"
      using Cons(3) by (simp_all add: s'_def)
    from False have "main_loop pick i s = main_loop pick (Suc i) s'"
      by (simp add: main_loop_message [OF inc] s'_def)
    with Cons(1) [OF q d] show ?thesis by simp
  qed
qed

text \<open>
  Claim C9, amended. Once the signal is raised, \<^verbatim>\<open>connWriter\<close> and the loop of \<^verbatim>\<open>main\<close> return:
  at once when no line or message is ready at their \<^verbatim>\<open>select\<close>, and in any case without ever
  waiting again. \<^verbatim>\<open>stdinReader\<close> returns when it comes to the check at the top of its loop;
  whether it is blocked in \<^verbatim>\<open>sc.Scan()\<close> or in the send does not depend on the signal.
\<close>

theorem signal_observed_at_select:
  assumes "doneCh s"
  shows "(outgoing s = [] \<longrightarrow> connWriter env i s = Returned s)
    \<and> (\<exists>s'. connWriter env i s = Returned s')
    \<and> (incoming s = [] \<longrightarrow>
         main_loop pick i s = Returned (s\<lparr>console := console s @ [''Connection closed. Bye.'']\<rparr>))
    \<and> (\<exists>s'. main_loop pick i s = Returned s')
    \<and> stdinReader_step tag (Polling, inp, s) = Some (Exited, inp, s)
    \<and> (stdinReader_step tag (Scanning, inp, s) = None \<longleftrightarrow>
         Scan_blocking (fst inp) (snd inp) = None)
    \<and> (stdinReader_step tag (Sending m, inp, s) = None \<longleftrightarrow> queueCap \<le> length (outgoing s))"
proof (intro conjI impI)
  assume "outgoing s = []"
  with assms show "connWriter env i s = Returned s" by (simp add: connWriter_done)
next
  from assms show "\<exists>s'. connWriter env i s = Returned s'" by (rule connWriter_exits)
next
  assume "incoming s = []"
  with assms show "main_loop pick i s =
      Returned (s\<lparr>console := console s @ [''Connection closed. Bye.'']\<rparr>)"
    by (simp add: main_loop_done)
next
  from assms show "\<exists>s'. main_loop pick i s = Returned s'" by (rule main_loop_exits)
next
  from assms show "stdinReader_step tag (Polling, inp, s) = Some (Exited, inp, s)" by simp
next
  show "stdinReader_step tag (Scanning, inp, s) = None \<longleftrightarrow>
         Scan_blocking (fst inp) (snd inp) = None"
    by (cases inp) (auto simp: Let_def split: option.splits)
next
  show "stdinReader_step tag (Sending m, inp, s) = None \<longleftrightarrow> queueCap \<le> length (outgoing s)"
    by auto
qed

theorem signal_observed_at_select_witness:
  "connWriter all_ok 0 (session0\<lparr>doneCh := True\<rparr>) = Returned (session0\<lparr>doneCh := True\<rparr>)
   \<and> main_loop (pickDone all_ok) 0 (session0\<lparr>doneCh := True\<rparr>) =
       Returned (session0\<lparr>doneCh := True, console := [''Connection closed. Bye.'']\<rparr>)
   \<and> stdinReader_step ''A: '' (Polling, ([], False), session0\<lparr>doneCh := True\<rparr>) =
       Some (Exited, ([], False), session0\<lparr>doneCh := True\<rparr>)"
proof -
  have "doneCh (session0\<lparr>doneCh := True\<rparr>)" by simp
  from signal_observed_at_select [OF this, of all_ok 0 "pickDone all_ok" "''A: ''" "([], False)"]
  show ?thesis by (simp add: session0_def)
qed

text \<open>
  The claim as stated fails for the line producer: it passes the check while the signal is
  down and then waits for input; the signal is raised, and it still cannot take a step.
  Nor can it while it waits to send into a full queue.
\<close>

theorem producer_blocked_counterexample:
  "stdinReader_step ''A: '' (Polling, ([], False), session0) = Some (Scanning, ([], False), session0)
   \<and> stdinReader_step ''A: '' (Scanning, ([], False), session0\<lparr>doneCh := True\<rparr>) = None
   \<and> stdinReader_step ''A: ''
        (Sending ''A: hi'', ([], False), session0\<lparr>doneCh := True, outgoing := replicate 32 ''A: x''\<rparr>) = None"
  by (simp add: session0_def Scan_blocking_def MaxScanTokenSize_def queueCap_def)

end
